theory Spec2Isabelle
  imports Main
begin

section \<open>In-place matrix transposition: the model\<close>

text \<open>
  The program under study (\<^verbatim>\<open>bench-transpose.cpp\<close>) transposes a square matrix of
  \<^verbatim>\<open>int\<close> that is stored row by row in one flat \<^verbatim>\<open>vector<int>\<close>. Four loop nests do
  the work: row by row, block by block, with two levels of blocks, and recursively.

  Conventions of the model.
  \<^item> Every size, loop counter and index of the source is an \<^verbatim>\<open>int\<close> of 32 bits and is
    never negative. The model computes with \<^typ>\<open>nat\<close> and reports a value above
    \<open>INT_MAX\<close> as the fault \<open>Int_Overflow\<close>, at the place where the source computes it:
    the overflow of a signed \<^verbatim>\<open>int\<close> has no defined result. Since no operand is
    negative, a sum or a product exceeds \<open>INT_MAX\<close> as soon as one of its parts does,
    so the check of the final value of an expression covers its intermediate values.
    On non-negative operands the \<^verbatim>\<open>%\<close> and \<^verbatim>\<open>/\<close> of C++ are \<open>mod\<close> and \<open>div\<close>.
  \<^item> \<^verbatim>\<open>operator[]\<close> of a vector has no defined result outside the vector. The model
    makes this a value: a swap whose index is outside the buffer yields a fault.
  \<^item> The state carries, next to the buffer, the list of all indices that were handed
    to \<^verbatim>\<open>operator[]\<close> so far, oldest first. The source has no such list; it is there
    so that statements about which cells are accessed can be made.
\<close>

type_synonym vi = "int list"

datatype fault = Out_Of_Bounds nat | Int_Overflow | No_Progress

record mem =
  cells :: vi
  touched :: "nat list"

definition INT_MAX :: nat where
  "INT_MAX = 2147483647"

text \<open>The value \<open>v\<close> of an \<^verbatim>\<open>int\<close> expression does not fit an \<^verbatim>\<open>int\<close>.\<close>

definition overflows :: "nat \<Rightarrow> bool" where
  "overflows v = (INT_MAX < v)"

text \<open>The sum of two non-negative \<^verbatim>\<open>int\<close> values.\<close>

definition add_int :: "nat \<Rightarrow> nat \<Rightarrow> fault + nat" where
  "add_int a b = (if overflows (a + b) then Inl Int_Overflow else Inr (a + b))"

subsection \<open>Padding\<close>

definition PAD :: nat where
  "PAD = 47"

text \<open>
  \<^verbatim>\<open>int pad(int N) { return N + (PAD ? (64+PAD-N%64)%64 : 0); }\<close>
  with the macro \<^verbatim>\<open>PAD\<close> as a parameter. \<^verbatim>\<open>64+PAD\<close> is at least 64 and \<^verbatim>\<open>N%64\<close> is
  below 64, so the difference is not negative.
\<close>

definition pad_with :: "nat \<Rightarrow> nat \<Rightarrow> fault + nat" where
  "pad_with P N =
     (if P \<noteq> 0 then
        (case add_int 64 P of
           Inl e \<Rightarrow> Inl e
         | Inr t \<Rightarrow> add_int N ((t - N mod 64) mod 64))
      else add_int N 0)"

definition pad :: "nat \<Rightarrow> fault + nat" where
  "pad N = pad_with PAD N"

subsection \<open>Swapping two cells, sequencing, loops\<close>

text \<open>
  \<^verbatim>\<open>swap(m[a], m[b])\<close>, where \<open>a\<close> and \<open>b\<close> are the values of the two index expressions
  \<^verbatim>\<open>i*N2+j\<close> and \<^verbatim>\<open>j*N2+i\<close>: both references are formed, then the two values are
  exchanged.
\<close>

definition swap :: "nat \<Rightarrow> nat \<Rightarrow> mem \<Rightarrow> fault + mem" where
  "swap a b s =
     (if overflows a \<or> overflows b then Inl Int_Overflow
      else if length (cells s) \<le> a then Inl (Out_Of_Bounds a)
      else if length (cells s) \<le> b then Inl (Out_Of_Bounds b)
      else Inr (s\<lparr>cells := (cells s)[a := cells s ! b, b := cells s ! a],
                  touched := touched s @ [a, b]\<rparr>))"

text \<open>One statement after another; a fault ends the run.\<close>

definition seq :: "(mem \<Rightarrow> fault + mem) \<Rightarrow> (mem \<Rightarrow> fault + mem) \<Rightarrow> mem \<Rightarrow> fault + mem" where
  "seq f g s = (case f s of Inl e \<Rightarrow> Inl e | Inr s' \<Rightarrow> g s')"

text \<open>
  \<^verbatim>\<open>for (int v = x; v < u && v < N; v += d) body\<close>. Every loop of the source with one
  counter has this shape, with \<open>d = 1\<close> for \<^verbatim>\<open>++v\<close>, and with \<open>u = N\<close> where the source
  tests \<^verbatim>\<open>v < N\<close> alone. Here \<open>x\<close> is the value of the initialiser or of the last
  \<^verbatim>\<open>v += d\<close>, and \<open>u\<close> the value of the bound (\<^verbatim>\<open>k+B\<close>, say), which the test computes
  before anything else. The steps of the source are the positive constants 1, 4, 64
  and 1040; a step of 0 would never leave the loop, which the model reports as
  \<open>No_Progress\<close>.
\<close>

function for_step ::
  "nat \<Rightarrow> nat \<Rightarrow> nat \<Rightarrow> nat \<Rightarrow> (nat \<Rightarrow> mem \<Rightarrow> fault + mem) \<Rightarrow> mem \<Rightarrow> fault + mem" where
  "for_step x u N d body s =
     (if overflows x \<or> overflows u \<or> overflows N then Inl Int_Overflow
      else if x < u \<and> x < N then
        (if d = 0 then Inl No_Progress
         else case body x s of
                Inl e \<Rightarrow> Inl e
              | Inr s' \<Rightarrow> for_step (x + d) u N d body s')
      else Inr s)"
  by pat_completeness auto
termination
  by (relation "measure (\<lambda>(x, u, N, d, body, s). N - x)") auto

text \<open>
  \<^verbatim>\<open>for (int x = x0, y = y0; x < b && x < N && y < N; ++x, ++y) body\<close>:
  the loop with two counters of the recursive variant.
\<close>

function for_pair ::
  "nat \<Rightarrow> nat \<Rightarrow> nat \<Rightarrow> nat \<Rightarrow> (nat \<Rightarrow> nat \<Rightarrow> mem \<Rightarrow> fault + mem) \<Rightarrow> mem \<Rightarrow> fault + mem" where
  "for_pair x y b N body s =
     (if overflows x \<or> overflows y \<or> overflows b \<or> overflows N then Inl Int_Overflow
      else if x < b \<and> x < N \<and> y < N then
        (case body x y s of
           Inl e \<Rightarrow> Inl e
         | Inr s' \<Rightarrow> for_pair (x + 1) (y + 1) b N body s')
      else Inr s)"
  by pat_completeness auto
termination
  by (relation "measure (\<lambda>(x, y, b, N, body, s). b - x)") auto

subsection \<open>The four transpositions\<close>

text \<open>
  One pass of the timed loop of \<^verbatim>\<open>BM_Transpose_Row\<close>; \<open>N2\<close> is the row stride.
\<close>

definition Transpose_Row :: "nat \<Rightarrow> nat \<Rightarrow> mem \<Rightarrow> fault + mem" where
  "Transpose_Row N N2 =
     for_step 0 N N 1 (\<lambda>i.
       for_step (i + 1) N N 1 (\<lambda>j.
         swap (i * N2 + j) (j * N2 + i)))"

text \<open>
  One pass of the timed loop of \<^verbatim>\<open>BM_Transpose_Block\<close>; the source has \<open>B = 64\<close>.
\<close>

definition Transpose_Block :: "nat \<Rightarrow> nat \<Rightarrow> nat \<Rightarrow> mem \<Rightarrow> fault + mem" where
  "Transpose_Block N N2 B =
     for_step 0 N N B (\<lambda>k.
       seq
         (for_step k (k + B) N 1 (\<lambda>i.
            for_step (k + 1) (k + B) N 1 (\<lambda>j.
              swap (i * N2 + j) (j * N2 + i))))
         (for_step (k + B) N N B (\<lambda>l.
            for_step k (k + B) N 1 (\<lambda>i.
              for_step l (l + B) N 1 (\<lambda>j.
                swap (i * N2 + j) (j * N2 + i))))))"

text \<open>
  One pass of the timed loop of \<^verbatim>\<open>BM_Transpose_Block2\<close>; the source has \<open>B = 4\<close> and
  \<open>B2 = 1040\<close>.
\<close>

definition Transpose_Block2 :: "nat \<Rightarrow> nat \<Rightarrow> nat \<Rightarrow> nat \<Rightarrow> mem \<Rightarrow> fault + mem" where
  "Transpose_Block2 N N2 B B2 =
     for_step 0 N N B2 (\<lambda>x.
       seq
         (for_step x (x + B2) N B (\<lambda>k.
            seq
              (for_step k (k + B) N 1 (\<lambda>i.
                 for_step (k + 1) (k + B) N 1 (\<lambda>j.
                   swap (i * N2 + j) (j * N2 + i))))
              (for_step (k + B) (x + B2) N B (\<lambda>l.
                 for_step k (k + B) N 1 (\<lambda>i.
                   for_step l (l + B) N 1 (\<lambda>j.
                     swap (i * N2 + j) (j * N2 + i)))))))
         (for_step (x + B2) N N B2 (\<lambda>y.
            for_step x (x + B2) N B (\<lambda>k.
              for_step y (y + B2) N B (\<lambda>l.
                for_step k (k + B) N 1 (\<lambda>i.
                  for_step l (l + B) N 1 (\<lambda>j.
                    swap (i * N2 + j) (j * N2 + i))))))))"

text \<open>
  \<^verbatim>\<open>transpose_rec(N, n, m, i0, j0, i1, j1)\<close>, with the buffer as the last argument.
  The six numbers are \<^verbatim>\<open>int\<close> parameters; in the inner calls they are the values of
  \<^verbatim>\<open>i0+h\<close>, \<^verbatim>\<open>j0+h\<close>, \<^verbatim>\<open>i1+h\<close>, \<^verbatim>\<open>j1+h\<close> and \<^verbatim>\<open>n-h\<close>, computed when the call is made.
\<close>

function transpose_rec ::
  "nat \<Rightarrow> nat \<Rightarrow> nat \<Rightarrow> nat \<Rightarrow> nat \<Rightarrow> nat \<Rightarrow> mem \<Rightarrow> fault + mem" where
  "transpose_rec N n i0 j0 i1 j1 s =
     (if overflows N \<or> overflows n \<or> overflows i0 \<or> overflows j0 \<or>
         overflows i1 \<or> overflows j1 then Inl Int_Overflow
      else if n \<le> 4 then
        (if i0 = j0 then
           for_step i0 (i0 + n) N 1 (\<lambda>i.
             for_step (i + 1) (i0 + n) N 1 (\<lambda>j.
               swap (i * N + j) (j * N + i))) s
         else
           for_pair i0 j1 (i0 + n) N (\<lambda>i jj.
             for_pair j0 i1 (j0 + n) N (\<lambda>j ii.
               swap (i * N + j) (ii * N + jj))) s)
      else
        (case transpose_rec N (n div 2) i0 j0 i1 j1 s of
           Inl e \<Rightarrow> Inl e
         | Inr s1 \<Rightarrow>
            (case transpose_rec N (n - n div 2) (i0 + n div 2) (j0 + n div 2)
                    (i1 + n div 2) (j1 + n div 2) s1 of
               Inl e \<Rightarrow> Inl e
             | Inr s2 \<Rightarrow>
                transpose_rec N (n - n div 2) (i0 + n div 2) j0 i1 (j1 + n div 2) s2)))"
  by pat_completeness auto
termination
  by (relation "measure (\<lambda>(N, n, i0, j0, i1, j1, s). n)") auto

text \<open>
  The benchmarks as the source instantiates them, on a given buffer: the stride
  \<^verbatim>\<open>N2 = pad(N)\<close>, the number \<^verbatim>\<open>N2*N\<close> of cells of the buffer (\<^verbatim>\<open>N*N\<close> for the
  recursive variant), which the source computes as an \<^verbatim>\<open>int\<close>, the block sizes 64,
  respectively 4 and 1040, and the top-level call \<^verbatim>\<open>transpose_rec(N, N, m, 0, 0, 0, 0)\<close>.
\<close>

definition BM_Transpose_Row :: "nat \<Rightarrow> mem \<Rightarrow> fault + mem" where
  "BM_Transpose_Row N s =
     (case pad N of
        Inl e \<Rightarrow> Inl e
      | Inr N2 \<Rightarrow> if overflows (N2 * N) then Inl Int_Overflow else Transpose_Row N N2 s)"

definition BM_Transpose_Block :: "nat \<Rightarrow> mem \<Rightarrow> fault + mem" where
  "BM_Transpose_Block N s =
     (case pad N of
        Inl e \<Rightarrow> Inl e
      | Inr N2 \<Rightarrow> if overflows (N2 * N) then Inl Int_Overflow else Transpose_Block N N2 64 s)"

definition BM_Transpose_Block2 :: "nat \<Rightarrow> mem \<Rightarrow> fault + mem" where
  "BM_Transpose_Block2 N s =
     (case pad N of
        Inl e \<Rightarrow> Inl e
      | Inr N2 \<Rightarrow>
          if overflows (N2 * N) then Inl Int_Overflow else Transpose_Block2 N N2 4 1040 s)"

definition BM_Transpose_Rec :: "nat \<Rightarrow> mem \<Rightarrow> fault + mem" where
  "BM_Transpose_Rec N s =
     (if overflows (N * N) then Inl Int_Overflow else transpose_rec N N 0 0 0 0 s)"

text \<open>The buffer of a run, if the run has one.\<close>

definition result :: "fault + mem \<Rightarrow> vi option" where
  "result r = (case r of Inl e \<Rightarrow> None | Inr s \<Rightarrow> Some (cells s))"

text \<open>
  Two buffers of zeros, of \<open>46341 * 46341\<close> cells (a matrix of dimension 46341 with
  stride 46341) and of \<open>46383 * 46320\<close> cells (dimension 46320 with its padded stride).
\<close>

definition zeros_46341 :: mem where
  "zeros_46341 = \<lparr>cells = replicate (46341 * 46341) 0, touched = []\<rparr>"

definition zeros_46320 :: mem where
  "zeros_46320 = \<lparr>cells = replicate (46383 * 46320) 0, touched = []\<rparr>"

section \<open>Swap schedules\<close>

text \<open>
  No loop of the program looks at the contents of the buffer, so each run performs a
  fixed list of swaps. Every swap exchanges a cell \<open>(i, j)\<close> of the matrix with its
  mirror cell \<open>(j, i)\<close>; \<open>run\<close> performs such a list, \<open>accesses\<close> is the list of
  buffer indices it uses, \<open>logical\<close> the set of buffer indices of the \<open>N \<times> N\<close>
  matrix, and \<open>flipped\<close> tells whether a cell and its mirror are exchanged an odd
  number of times.
\<close>

definition logical :: "nat \<Rightarrow> nat \<Rightarrow> nat set" where
  "logical N S = (\<lambda>(i, j). i * S + j) ` ({..<N} \<times> {..<N})"

definition mswap :: "nat \<Rightarrow> nat \<times> nat \<Rightarrow> mem \<Rightarrow> fault + mem" where
  "mswap S p = swap (fst p * S + snd p) (snd p * S + fst p)"

fun run :: "nat \<Rightarrow> (nat \<times> nat) list \<Rightarrow> mem \<Rightarrow> fault + mem" where
  "run S [] s = Inr s"
| "run S (p # ps) s = (case mswap S p s of Inl e \<Rightarrow> Inl e | Inr s' \<Rightarrow> run S ps s')"

definition accesses :: "nat \<Rightarrow> (nat \<times> nat) list \<Rightarrow> nat list" where
  "accesses S ps = concat (map (\<lambda>(i, j). [i * S + j, j * S + i]) ps)"

definition flipped :: "(nat \<times> nat) list \<Rightarrow> nat \<Rightarrow> nat \<Rightarrow> bool" where
  "flipped ps i j = odd (count_list ps (i, j) + count_list ps (j, i))"

definition oblivious :: "nat \<Rightarrow> nat \<Rightarrow> (mem \<Rightarrow> fault + mem) \<Rightarrow> bool" where
  "oblivious N S f = (\<exists>ps. set ps \<subseteq> {..<N} \<times> {..<N} \<and> (\<forall>s. f s = run S ps s))"

text \<open>The swaps of the row-by-row variant, from row \<open>a\<close> on.\<close>

definition row_pairs :: "nat \<Rightarrow> nat \<Rightarrow> (nat \<times> nat) list" where
  "row_pairs a N = concat (map (\<lambda>i. map (Pair i) [i + 1..<N]) [a..<N])"

subsection \<open>Properties of a run, as predicates\<close>

text \<open>Running \<open>f\<close> twice gives back the buffer the first run started from.\<close>

definition restores :: "(mem \<Rightarrow> fault + mem) \<Rightarrow> mem \<Rightarrow> bool" where
  "restores f s =
     (case f s of
        Inl e \<Rightarrow> False
      | Inr s1 \<Rightarrow> (case f s1 of Inl e \<Rightarrow> False | Inr s2 \<Rightarrow> cells s2 = cells s))"

text \<open>The run \<open>r\<close> from \<open>s\<close> has a result, with the diagonal of the matrix as it was.\<close>

definition diagonal_fixed :: "nat \<Rightarrow> nat \<Rightarrow> mem \<Rightarrow> fault + mem \<Rightarrow> bool" where
  "diagonal_fixed N S s r =
     (case r of
        Inl e \<Rightarrow> False
      | Inr s' \<Rightarrow> (\<forall>i<N. cells s' ! (i * S + i) = cells s ! (i * S + i)))"

text \<open>
  The run \<open>r\<close> from \<open>s\<close> has a result, every index it used belongs to the matrix, and
  the cells of the columns \<open>N, \<dots>, S - 1\<close> of every row are not used and hold what they
  held.
\<close>

definition leaves_padding :: "nat \<Rightarrow> nat \<Rightarrow> mem \<Rightarrow> fault + mem \<Rightarrow> bool" where
  "leaves_padding N S s r =
     (\<exists>s' tr. r = Inr s' \<and> touched s' = touched s @ tr \<and>
        (\<forall>p\<in>set tr. \<exists>i<N. \<exists>j<N. p = i * S + j) \<and>
        (\<forall>i c. N \<le> c \<and> c < S \<longrightarrow> i * S + c \<notin> set tr \<and>
           cells s' ! (i * S + c) = cells s ! (i * S + c)))"

text \<open>The run \<open>r\<close> from \<open>s\<close> has a result, and every index it used is inside the buffer.\<close>

definition in_bounds :: "mem \<Rightarrow> fault + mem \<Rightarrow> bool" where
  "in_bounds s r =
     (\<exists>s' tr. r = Inr s' \<and> touched s' = touched s @ tr \<and>
        (\<forall>p\<in>set tr. p < length (cells s)))"


section \<open>Loops and schedules\<close>

lemma overflows_iff [simp]: "overflows v \<longleftrightarrow> INT_MAX < v"
  by (simp add: overflows_def)

text \<open>For evaluation, the comparison is made on integers in binary notation.\<close>

lemma overflows_code [code]: "overflows v = (2147483647 < int v)"
  by (simp add: overflows_def INT_MAX_def)

declare for_step.simps [simp del]
declare for_pair.simps [simp del]
declare transpose_rec.simps [simp del]

lemma for_step_done:
  "x \<le> INT_MAX \<Longrightarrow> u \<le> INT_MAX \<Longrightarrow> N \<le> INT_MAX \<Longrightarrow> \<not> (x < u \<and> x < N) \<Longrightarrow>
     for_step x u N d body = Inr"
  by (rule ext) (auto simp: for_step.simps [of x u N d body])

lemma for_step_unfold:
  "x \<le> INT_MAX \<Longrightarrow> u \<le> INT_MAX \<Longrightarrow> N \<le> INT_MAX \<Longrightarrow> x < u \<Longrightarrow> x < N \<Longrightarrow> 0 < d \<Longrightarrow>
     for_step x u N d body = seq (body x) (for_step (x + d) u N d body)"
  by (rule ext) (simp add: for_step.simps [of x u N d body] seq_def)

lemma for_pair_done:
  "x \<le> INT_MAX \<Longrightarrow> y \<le> INT_MAX \<Longrightarrow> b \<le> INT_MAX \<Longrightarrow> N \<le> INT_MAX \<Longrightarrow>
     \<not> (x < b \<and> x < N \<and> y < N) \<Longrightarrow> for_pair x y b N body = Inr"
  by (rule ext) (auto simp: for_pair.simps [of x y b N body])

lemma for_pair_unfold:
  "b \<le> INT_MAX \<Longrightarrow> N \<le> INT_MAX \<Longrightarrow> x < b \<Longrightarrow> x < N \<Longrightarrow> y < N \<Longrightarrow>
     for_pair x y b N body = seq (body x y) (for_pair (x + 1) (y + 1) b N body)"
  by (rule ext) (simp add: for_pair.simps [of x y b N body] seq_def split: sum.splits)

lemma transpose_rec_unfold:
  assumes "N \<le> INT_MAX" "n \<le> INT_MAX" "i0 \<le> INT_MAX" "j0 \<le> INT_MAX"
    "i1 \<le> INT_MAX" "j1 \<le> INT_MAX"
  shows "transpose_rec N n i0 j0 i1 j1 =
     (if n \<le> 4 then
        (if i0 = j0 then
           for_step i0 (i0 + n) N 1 (\<lambda>i.
             for_step (i + 1) (i0 + n) N 1 (\<lambda>j.
               swap (i * N + j) (j * N + i)))
         else
           for_pair i0 j1 (i0 + n) N (\<lambda>i jj.
             for_pair j0 i1 (j0 + n) N (\<lambda>j ii.
               swap (i * N + j) (ii * N + jj))))
      else
        seq (transpose_rec N (n div 2) i0 j0 i1 j1)
          (seq (transpose_rec N (n - n div 2) (i0 + n div 2) (j0 + n div 2)
                  (i1 + n div 2) (j1 + n div 2))
               (transpose_rec N (n - n div 2) (i0 + n div 2) j0 i1 (j1 + n div 2))))"
  using assms
  by (intro ext) (simp add: transpose_rec.simps [of N n i0 j0 i1 j1] seq_def split: sum.splits)

lemma run_Nil: "run S [] = Inr"
  by (rule ext) simp

lemma run_single: "run S [(i, j)] = swap (i * S + j) (j * S + i)"
  by (rule ext) (simp add: mswap_def split: sum.splits)

lemma run_append: "run S (ps @ qs) = seq (run S ps) (run S qs)"
proof
  fix s
  show "run S (ps @ qs) s = seq (run S ps) (run S qs) s"
    by (induction ps arbitrary: s) (auto simp: seq_def split: sum.splits)
qed

subsection \<open>Every loop nest performs a list of mirror swaps inside the matrix\<close>

text \<open>
  This holds as long as no loop counter and no loop bound exceeds \<open>INT_MAX\<close>; the
  index expressions of the swaps may still do so.
\<close>

lemma oblivious_Inr: "oblivious N S Inr"
  unfolding oblivious_def by (rule exI [of _ "[]"]) simp

lemma oblivious_swap:
  "i < N \<Longrightarrow> j < N \<Longrightarrow> oblivious N S (swap (i * S + j) (j * S + i))"
  unfolding oblivious_def by (rule exI [of _ "[(i, j)]"]) (simp add: run_single)

lemma oblivious_seq:
  assumes "oblivious N S f" "oblivious N S g"
  shows "oblivious N S (seq f g)"
proof -
  from assms obtain ps qs where
    ps: "set ps \<subseteq> {..<N} \<times> {..<N}" "\<forall>s. f s = run S ps s" and
    qs: "set qs \<subseteq> {..<N} \<times> {..<N}" "\<forall>s. g s = run S qs s"
    unfolding oblivious_def by blast
  have "f = run S ps" "g = run S qs" using ps(2) qs(2) by auto
  then have "\<forall>s. seq f g s = run S (ps @ qs) s" by (simp add: run_append)
  moreover have "set (ps @ qs) \<subseteq> {..<N} \<times> {..<N}" using ps(1) qs(1) by simp
  ultimately show ?thesis unfolding oblivious_def by blast
qed

lemma oblivious_for_step:
  assumes d: "0 < d" and a: "a \<le> INT_MAX" and u: "u \<le> INT_MAX" and M: "M + d \<le> INT_MAX"
    and body: "\<And>x. a \<le> x \<Longrightarrow> x < u \<Longrightarrow> x < M \<Longrightarrow> oblivious N S (body x)"
  shows "oblivious N S (for_step a u M d body)"
  using a body
proof (induction "M - a" arbitrary: a rule: less_induct)
  case less
  have M': "M \<le> INT_MAX" using M by simp
  show ?case
  proof (cases "a < u \<and> a < M")
    case False
    then show ?thesis
      using less.prems(1) u M' by (simp add: for_step_done oblivious_Inr)
  next
    case True
    then have c: "a < u" "a < M" by simp_all
    have "oblivious N S (body a)" using less.prems(2) c by simp
    moreover have "oblivious N S (for_step (a + d) u M d body)"
    proof (rule less.hyps)
      show "M - (a + d) < M - a" using c d by simp
      show "a + d \<le> INT_MAX" using c M by simp
      fix x assume "a + d \<le> x" "x < u" "x < M"
      then show "oblivious N S (body x)" using less.prems(2) [of x] by simp
    qed
    ultimately have "oblivious N S (seq (body a) (for_step (a + d) u M d body))"
      by (rule oblivious_seq)
    then show ?thesis
      by (simp only: for_step_unfold [OF less.prems(1) u M' c d])
  qed
qed

lemma oblivious_for_pair:
  assumes b: "b \<le> INT_MAX" and M: "M \<le> INT_MAX" and x: "x \<le> INT_MAX" and y: "y \<le> INT_MAX"
    and body: "\<And>t. x + t < b \<Longrightarrow> x + t < M \<Longrightarrow> y + t < M \<Longrightarrow>
                 oblivious N S (body (x + t) (y + t))"
  shows "oblivious N S (for_pair x y b M body)"
  using x y body
proof (induction "b - x" arbitrary: x y rule: less_induct)
  case less
  show ?case
  proof (cases "x < b \<and> x < M \<and> y < M")
    case False
    then show ?thesis
      using less.prems(1,2) b M by (simp add: for_pair_done oblivious_Inr)
  next
    case True
    then have c: "x < b" "x < M" "y < M" by simp_all
    have "oblivious N S (body x y)" using less.prems(3) [of 0] c by simp
    moreover have "oblivious N S (for_pair (x + 1) (y + 1) b M body)"
    proof (rule less.hyps)
      show "b - (x + 1) < b - x" using c by simp
      show "x + 1 \<le> INT_MAX" "y + 1 \<le> INT_MAX" using c M by simp_all
      fix t assume "x + 1 + t < b" "x + 1 + t < M" "y + 1 + t < M"
      then show "oblivious N S (body (x + 1 + t) (y + 1 + t))"
        using less.prems(3) [of "Suc t"] by simp
    qed
    ultimately have "oblivious N S (seq (body x y) (for_pair (x + 1) (y + 1) b M body))"
      by (rule oblivious_seq)
    then show ?thesis by (simp only: for_pair_unfold [OF b M c])
  qed
qed

lemma oblivious_Row:
  assumes "N + 1 \<le> INT_MAX"
  shows "oblivious N S (Transpose_Row N S)"
  unfolding Transpose_Row_def
  by (insert assms, intro oblivious_for_step oblivious_swap) simp_all

lemma oblivious_Block:
  assumes "0 < B" "N + B \<le> INT_MAX"
  shows "oblivious N S (Transpose_Block N S B)"
  unfolding Transpose_Block_def
  by (insert assms, intro oblivious_for_step oblivious_seq oblivious_swap) simp_all

lemma oblivious_Block2:
  assumes "0 < B" "0 < B2" "N + B \<le> INT_MAX" "N + B2 \<le> INT_MAX"
  shows "oblivious N S (Transpose_Block2 N S B B2)"
  unfolding Transpose_Block2_def
  by (insert assms, intro oblivious_for_step oblivious_seq oblivious_swap) simp_all

text \<open>
  In the recursion the second corner is always the mirror image of the first one:
  the top-level call has all four coordinates 0, and the three inner calls keep
  \<open>i1 = j0\<close> and \<open>j1 = i0\<close>. Both blocks stay inside the matrix.
\<close>

lemma oblivious_rec:
  assumes N: "N + 1 \<le> INT_MAX"
  shows "i0 + n \<le> N \<Longrightarrow> j0 + n \<le> N \<Longrightarrow> oblivious N N (transpose_rec N n i0 j0 j0 i0)"
proof (induction n arbitrary: i0 j0 rule: less_induct)
  case (less n)
  have le: "N \<le> INT_MAX" "n \<le> INT_MAX" "i0 \<le> INT_MAX" "j0 \<le> INT_MAX"
    using N less.prems by simp_all
  note unf = transpose_rec_unfold [OF le(1,2,3,4,4,3)]
  show ?case
  proof (cases "n \<le> 4")
    case True
    show ?thesis
    proof (cases "i0 = j0")
      case True
      have "oblivious N N (for_step i0 (i0 + n) N 1 (\<lambda>i.
             for_step (i + 1) (i0 + n) N 1 (\<lambda>j. swap (i * N + j) (j * N + i))))"
        by (insert N less.prems, intro oblivious_for_step oblivious_swap) simp_all
      then show ?thesis unfolding unf using True \<open>n \<le> 4\<close> by simp
    next
      case False
      have "oblivious N N (for_pair i0 i0 (i0 + n) N (\<lambda>i jj.
             for_pair j0 j0 (j0 + n) N (\<lambda>j ii. swap (i * N + j) (ii * N + jj))))"
        by (insert N less.prems, intro oblivious_for_pair oblivious_swap) simp_all
      then show ?thesis unfolding unf using False \<open>n \<le> 4\<close> by simp
    qed
  next
    case False
    then have lt: "n div 2 < n" "n - n div 2 < n" by auto
    have 1: "oblivious N N (transpose_rec N (n div 2) i0 j0 j0 i0)"
      using less.prems by (intro less.IH lt) simp_all
    have 2: "oblivious N N (transpose_rec N (n - n div 2) (i0 + n div 2) (j0 + n div 2)
                  (j0 + n div 2) (i0 + n div 2))"
      using less.prems by (intro less.IH lt) simp_all
    have 3: "oblivious N N (transpose_rec N (n - n div 2) (i0 + n div 2) j0 j0 (i0 + n div 2))"
      using less.prems by (intro less.IH lt) simp_all
    show ?thesis
      unfolding unf using False oblivious_seq [OF 1 oblivious_seq [OF 2 3]] by simp
  qed
qed

lemma oblivious_Rec:
  assumes "N + 1 \<le> INT_MAX"
  shows "oblivious N N (transpose_rec N N 0 0 0 0)"
  using oblivious_rec [OF assms, of 0 N 0] by simp

section \<open>What a list of mirror swaps does to the buffer\<close>

lemma idx_lt:
  fixes i j N S :: nat
  assumes "i < N" "j < N" "N \<le> S"
  shows "i * S + j < S * N"
proof -
  have "i * S + j < i * S + S" using assms by simp
  also have "\<dots> = Suc i * S" by simp
  also have "\<dots> \<le> N * S" using assms(1) by (intro mult_le_mono1) simp
  finally show ?thesis by (simp add: mult.commute)
qed

lemma idx_inj:
  fixes i j k l S :: nat
  assumes "j < S" "l < S"
  shows "(i * S + j = k * S + l) = (i = k \<and> j = l)"
proof
  assume e: "i * S + j = k * S + l"
  have "(i * S + j) div S = i" "(i * S + j) mod S = j"
       "(k * S + l) div S = k" "(k * S + l) mod S = l"
    using assms by simp_all
  with e show "i = k \<and> j = l" by metis
qed simp

lemma logical_mem: "i < N \<Longrightarrow> j < N \<Longrightarrow> i * S + j \<in> logical N S"
  by (auto simp: logical_def)

lemma logical_iff: "p \<in> logical N S \<longleftrightarrow> (\<exists>i<N. \<exists>j<N. p = i * S + j)"
  by (auto simp: logical_def)

lemma padding_not_logical:
  assumes "N \<le> c" "c < S"
  shows "i * S + c \<notin> logical N S"
proof
  assume "i * S + c \<in> logical N S"
  then obtain a b where ab: "a < N" "b < N" "i * S + c = a * S + b"
    by (auto simp: logical_iff)
  then have "b < S" using assms by simp
  from idx_inj [OF assms(2) this] ab(3) have "c = b" by simp
  with ab(2) assms(1) show False by simp
qed

lemma set_accesses:
  assumes "set ps \<subseteq> {..<N} \<times> {..<N}"
  shows "set (accesses S ps) \<subseteq> logical N S"
  using assms by (auto simp: accesses_def logical_mem)

lemma length_accesses: "length (accesses S ps) = 2 * length ps"
  by (induction ps) (auto simp: accesses_def)

lemma mswap_Inr:
  assumes "i < N" "j < N" "N \<le> S" "S * N \<le> length (cells s)" "S * N \<le> INT_MAX"
  shows "mswap S (i, j) s =
    Inr (s\<lparr>cells := (cells s)[i * S + j := cells s ! (j * S + i), j * S + i := cells s ! (i * S + j)],
           touched := touched s @ [i * S + j, j * S + i]\<rparr>)"
proof -
  have "i * S + j < length (cells s)" "j * S + i < length (cells s)"
    "i * S + j \<le> INT_MAX" "j * S + i \<le> INT_MAX"
    using idx_lt [OF assms(1,2,3)] idx_lt [OF assms(2,1,3)] assms(4,5) by simp_all
  then show ?thesis by (simp add: mswap_def swap_def)
qed

lemma cell_after_swap:
  fixes m :: vi
  assumes "x < N" "y < N" "a < N" "b < N" "N \<le> S" "S * N \<le> length m"
  shows "m[a * S + b := m ! (b * S + a), b * S + a := m ! (a * S + b)] ! (x * S + y) =
     (if (x, y) = (a, b) \<or> (x, y) = (b, a) then m ! (y * S + x) else m ! (x * S + y))"
proof -
  have lt: "a * S + b < length m" "b * S + a < length m"
    using idx_lt [OF assms(3,4,5)] idx_lt [OF assms(4,3,5)] assms(6) by simp_all
  have S: "x < S" "y < S" "a < S" "b < S" using assms by simp_all
  have e1: "(x * S + y = a * S + b) = (x = a \<and> y = b)" by (rule idx_inj [OF S(2,4)])
  have e2: "(x * S + y = b * S + a) = (x = b \<and> y = a)" by (rule idx_inj [OF S(2,3)])
  show ?thesis
  proof (cases "x = b \<and> y = a")
    case True
    then show ?thesis using lt by simp
  next
    case False
    note nba = this
    show ?thesis
    proof (cases "x = a \<and> y = b")
      case True
      then have "b * S + a \<noteq> a * S + b" using nba e2 by auto
      then show ?thesis using True lt by simp
    next
      case False
      then have "a * S + b \<noteq> x * S + y" "b * S + a \<noteq> x * S + y"
        using nba e1 e2 by auto
      then show ?thesis using False nba by auto
    qed
  qed
qed

lemma flipped_diag: "flipped ps i i = False"
  by (simp add: flipped_def)

lemma flipped_Nil: "flipped [] i j = False"
  by (simp add: flipped_def)

lemma flipped_Cons:
  "i \<noteq> j \<Longrightarrow> flipped ((a, b) # ps) i j = (flipped ps i j \<noteq> ((i, j) = (a, b) \<or> (i, j) = (b, a)))"
  by (auto simp: flipped_def)

lemma flipped_sym: "flipped ps i j = flipped ps j i"
  by (simp add: flipped_def add.commute)

text \<open>
  A list of mirror swaps inside the matrix, on a buffer that holds the matrix and whose
  indices fit an \<^verbatim>\<open>int\<close>, has a result; the cell \<open>(i, j)\<close> ends with what \<open>(j, i)\<close> held if the pair was exchanged an
  odd number of times and with its own value otherwise; no other cell changes.
\<close>

lemma run_effect:
  assumes "set ps \<subseteq> {..<N} \<times> {..<N}" "N \<le> S" "S * N \<le> length (cells s)"
    "S * N \<le> INT_MAX"
  shows "\<exists>s'. run S ps s = Inr s' \<and> length (cells s') = length (cells s) \<and>
     touched s' = touched s @ accesses S ps \<and>
     (\<forall>i<N. \<forall>j<N. cells s' ! (i * S + j) =
        (if flipped ps i j then cells s ! (j * S + i) else cells s ! (i * S + j))) \<and>
     (\<forall>p. p \<notin> logical N S \<longrightarrow> cells s' ! p = cells s ! p)"
  using assms
proof (induction ps arbitrary: s)
  case Nil
  then show ?case by (simp add: flipped_Nil accesses_def)
next
  case (Cons p ps)
  obtain a b where p: "p = (a, b)" by (cases p)
  have ab: "a < N" "b < N" using Cons.prems(1) p by auto
  define s1 where "s1 = s\<lparr>cells := (cells s)[a * S + b := cells s ! (b * S + a), b * S + a := cells s ! (a * S + b)],
           touched := touched s @ [a * S + b, b * S + a]\<rparr>"
  have step: "mswap S p s = Inr s1"
    unfolding p s1_def by (rule mswap_Inr [OF ab Cons.prems(2,3,4)])
  have len1: "length (cells s1) = length (cells s)" by (simp add: s1_def)
  have "set ps \<subseteq> {..<N} \<times> {..<N}" using Cons.prems(1) by simp
  from Cons.IH [OF this Cons.prems(2) _ Cons.prems(4), of s1] len1 Cons.prems(3)
  obtain s' where s': "run S ps s1 = Inr s'" "length (cells s') = length (cells s1)"
     "touched s' = touched s1 @ accesses S ps"
     "\<forall>i<N. \<forall>j<N. cells s' ! (i * S + j) =
        (if flipped ps i j then cells s1 ! (j * S + i) else cells s1 ! (i * S + j))"
     "\<forall>p. p \<notin> logical N S \<longrightarrow> cells s' ! p = cells s1 ! p"
    by auto
  have c1: "cells s1 ! (x * S + y) =
     (if (x, y) = (a, b) \<or> (x, y) = (b, a) then cells s ! (y * S + x) else cells s ! (x * S + y))"
    if "x < N" "y < N" for x y
    unfolding s1_def using cell_after_swap [OF that ab Cons.prems(2,3)] by simp
  have "run S (p # ps) s = Inr s'" using step s'(1) by simp
  moreover have "length (cells s') = length (cells s)" using s'(2) len1 by simp
  moreover have "touched s' = touched s @ accesses S (p # ps)"
    using s'(3) by (simp add: s1_def p accesses_def)
  moreover have "cells s' ! (i * S + j) =
        (if flipped (p # ps) i j then cells s ! (j * S + i) else cells s ! (i * S + j))"
    if ij: "i < N" "j < N" for i j
  proof (cases "i = j")
    case True
    then show ?thesis using s'(4) ij c1 [OF ij] by (simp add: flipped_diag)
  next
    case False
    then show ?thesis
      using s'(4) ij c1 [OF ij] c1 [OF ij(2,1)]
      by (auto simp: flipped_Cons p)
  qed
  moreover have "cells s' ! q = cells s ! q" if "q \<notin> logical N S" for q
  proof -
    have "q \<noteq> a * S + b" "q \<noteq> b * S + a"
      using that logical_mem [OF ab] logical_mem [OF ab(2,1)] by auto
    then have "cells s1 ! q = cells s ! q" by (simp add: s1_def)
    with s'(5) that show ?thesis by simp
  qed
  ultimately show ?case by blast
qed

text \<open>The same list of swaps, performed twice, gives back the buffer.\<close>

lemma run_twice:
  assumes "set ps \<subseteq> {..<N} \<times> {..<N}" "N \<le> S" "S * N \<le> length (cells s)"
    "S * N \<le> INT_MAX"
  shows "\<exists>s1 s2. run S ps s = Inr s1 \<and> run S ps s1 = Inr s2 \<and> cells s2 = cells s"
proof -
  from run_effect [OF assms] obtain s1 where s1:
    "run S ps s = Inr s1" "length (cells s1) = length (cells s)"
    "\<forall>i<N. \<forall>j<N. cells s1 ! (i * S + j) =
        (if flipped ps i j then cells s ! (j * S + i) else cells s ! (i * S + j))"
    "\<forall>p. p \<notin> logical N S \<longrightarrow> cells s1 ! p = cells s ! p"
    by blast
  have "S * N \<le> length (cells s1)" using s1(2) assms(3) by simp
  from run_effect [OF assms(1,2) this assms(4)] obtain s2 where s2:
    "run S ps s1 = Inr s2" "length (cells s2) = length (cells s1)"
    "\<forall>i<N. \<forall>j<N. cells s2 ! (i * S + j) =
        (if flipped ps i j then cells s1 ! (j * S + i) else cells s1 ! (i * S + j))"
    "\<forall>p. p \<notin> logical N S \<longrightarrow> cells s2 ! p = cells s1 ! p"
    by blast
  have "cells s2 = cells s"
  proof (rule nth_equalityI)
    show "length (cells s2) = length (cells s)" using s1(2) s2(2) by simp
    fix p assume "p < length (cells s2)"
    show "cells s2 ! p = cells s ! p"
    proof (cases "p \<in> logical N S")
      case False
      then show ?thesis using s1(4) s2(4) by simp
    next
      case True
      then obtain i j where ij: "i < N" "j < N" "p = i * S + j"
        by (auto simp: logical_iff)
      show ?thesis
      proof (cases "flipped ps i j")
        case True
        then have "flipped ps j i" by (simp add: flipped_sym)
        then have "cells s1 ! (j * S + i) = cells s ! (i * S + j)"
          using s1(3) ij by simp
        then show ?thesis using True s2(3) ij by simp
      next
        case False
        then show ?thesis using s1(3) s2(3) ij by simp
      qed
    qed
  qed
  with s1(1) s2(1) show ?thesis by blast
qed

text \<open>
  If the index expression of one of the swaps exceeds \<open>INT_MAX\<close>, the run ends in
  \<open>Int_Overflow\<close>: on a buffer that holds the matrix no swap before it is out of
  bounds.
\<close>

lemma mswap_cases:
  assumes "i < N" "j < N" "N \<le> S" "S * N \<le> length (cells s)"
  shows "mswap S (i, j) s = Inl Int_Overflow \<or>
         (\<exists>s'. mswap S (i, j) s = Inr s' \<and> length (cells s') = length (cells s))"
proof -
  have "i * S + j < length (cells s)" "j * S + i < length (cells s)"
    using idx_lt [OF assms(1,2,3)] idx_lt [OF assms(2,1,3)] assms(4) by simp_all
  then show ?thesis by (simp add: mswap_def swap_def)
qed

lemma run_overflow:
  assumes "set ps \<subseteq> {..<N} \<times> {..<N}" "N \<le> S" "S * N \<le> length (cells s)"
    and "(i, j) \<in> set ps" "INT_MAX < j * S + i"
  shows "run S ps s = Inl Int_Overflow"
  using assms(1,3,4)
proof (induction ps arbitrary: s)
  case Nil
  then show ?case by simp
next
  case (Cons p ps)
  obtain a b where p: "p = (a, b)" by (cases p)
  have ab: "a < N" "b < N" using Cons.prems(1) p by auto
  show ?case
  proof (cases "p = (i, j)")
    case True
    then have "mswap S p s = Inl Int_Overflow"
      using assms(5) by (simp add: mswap_def swap_def)
    then show ?thesis by simp
  next
    case False
    then have in_ps: "(i, j) \<in> set ps" using Cons.prems(3) by simp
    have sub: "set ps \<subseteq> {..<N} \<times> {..<N}" using Cons.prems(1) by simp
    from mswap_cases [OF ab assms(2) Cons.prems(2)] show ?thesis
    proof
      assume "mswap S (a, b) s = Inl Int_Overflow"
      then show ?thesis by (simp add: p)
    next
      assume "\<exists>s'. mswap S (a, b) s = Inr s' \<and> length (cells s') = length (cells s)"
      then obtain s' where s': "mswap S (a, b) s = Inr s'"
        "length (cells s') = length (cells s)" by blast
      have "run S ps s' = Inl Int_Overflow"
        using Cons.IH [OF sub _ in_ps, of s'] s'(2) Cons.prems(2) by simp
      then show ?thesis using s'(1) by (simp add: p)
    qed
  qed
qed

subsection \<open>Consequences for every loop nest\<close>

lemma oblivious_restores:
  assumes "oblivious N S f" "N \<le> S" "S * N \<le> length (cells s)" "S * N \<le> INT_MAX"
  shows "restores f s"
proof -
  from assms(1) obtain ps where ps: "set ps \<subseteq> {..<N} \<times> {..<N}" "\<forall>s. f s = run S ps s"
    unfolding oblivious_def by blast
  from run_twice [OF ps(1) assms(2,3,4)] obtain s1 s2 where
    "run S ps s = Inr s1" "run S ps s1 = Inr s2" "cells s2 = cells s" by blast
  then show ?thesis using ps(2) by (simp add: restores_def)
qed

lemma oblivious_diagonal:
  assumes "oblivious N S f" "N \<le> S" "S * N \<le> length (cells s)" "S * N \<le> INT_MAX"
  shows "diagonal_fixed N S s (f s)"
proof -
  from assms(1) obtain ps where ps: "set ps \<subseteq> {..<N} \<times> {..<N}" "\<forall>s. f s = run S ps s"
    unfolding oblivious_def by blast
  from run_effect [OF ps(1) assms(2,3,4)] obtain s' where
    "run S ps s = Inr s'"
    "\<forall>i<N. \<forall>j<N. cells s' ! (i * S + j) =
        (if flipped ps i j then cells s ! (j * S + i) else cells s ! (i * S + j))"
    by blast
  then show ?thesis using ps(2) by (simp add: diagonal_fixed_def flipped_diag)
qed

lemma oblivious_frame:
  assumes "oblivious N S f" "N \<le> S" "S * N \<le> length (cells s)" "S * N \<le> INT_MAX"
  shows "\<exists>s' tr. f s = Inr s' \<and> touched s' = touched s @ tr \<and> set tr \<subseteq> logical N S \<and>
           (\<forall>p. p \<notin> logical N S \<longrightarrow> cells s' ! p = cells s ! p)"
proof -
  from assms(1) obtain ps where ps: "set ps \<subseteq> {..<N} \<times> {..<N}" "\<forall>s. f s = run S ps s"
    unfolding oblivious_def by blast
  from run_effect [OF ps(1) assms(2,3,4)] obtain s' where
    "run S ps s = Inr s'" "touched s' = touched s @ accesses S ps"
    "\<forall>p. p \<notin> logical N S \<longrightarrow> cells s' ! p = cells s ! p"
    by blast
  then show ?thesis using ps(2) set_accesses [OF ps(1), of S] by auto
qed

lemma oblivious_leaves_padding:
  assumes "oblivious N S f" "N \<le> S" "S * N \<le> length (cells s)" "S * N \<le> INT_MAX"
  shows "leaves_padding N S s (f s)"
proof -
  from oblivious_frame [OF assms] obtain s' tr where f:
    "f s = Inr s'" "touched s' = touched s @ tr" "set tr \<subseteq> logical N S"
    "\<forall>p. p \<notin> logical N S \<longrightarrow> cells s' ! p = cells s ! p"
    by blast
  have "\<forall>p\<in>set tr. \<exists>i<N. \<exists>j<N. p = i * S + j"
    using f(3) by (auto simp: logical_iff)
  moreover have "\<forall>i c. N \<le> c \<and> c < S \<longrightarrow> i * S + c \<notin> set tr \<and>
           cells s' ! (i * S + c) = cells s ! (i * S + c)"
    using f(3,4) padding_not_logical [of N _ S] by blast
  ultimately show ?thesis
    unfolding leaves_padding_def using f(1,2) by blast
qed

lemma oblivious_in_bounds:
  assumes "oblivious N S f" "N \<le> S" "S * N \<le> length (cells s)" "S * N \<le> INT_MAX"
  shows "in_bounds s (f s)"
proof -
  from oblivious_frame [OF assms] obtain s' tr where f:
    "f s = Inr s'" "touched s' = touched s @ tr" "set tr \<subseteq> logical N S"
    by blast
  have "p < length (cells s)" if "p \<in> set tr" for p
  proof -
    from that f(3) have "p \<in> logical N S" by blast
    then obtain i j where "i < N" "j < N" "p = i * S + j"
      unfolding logical_iff by blast
    then show ?thesis using idx_lt [of i N j S] assms(2,3) by simp
  qed
  then show ?thesis unfolding in_bounds_def using f(1,2) by blast
qed



section \<open>The row-by-row variant\<close>

lemma for_step_1_run:
  assumes N: "N + 1 \<le> INT_MAX"
    and a: "a \<le> N"
    and body: "\<And>x. a \<le> x \<Longrightarrow> x < N \<Longrightarrow> body x = run S (f x)"
  shows "for_step a N N 1 body = run S (concat (map f [a..<N]))"
  using a body
proof (induction "N - a" arbitrary: a)
  case 0
  then have "\<not> (a < N \<and> a < N)" "a \<le> INT_MAX" "N \<le> INT_MAX" using N by simp_all
  then show ?case by (simp add: for_step_done run_Nil)
next
  case (Suc n)
  then have ab: "a < N" by simp
  have le: "a \<le> INT_MAX" "N \<le> INT_MAX" using ab N by simp_all
  have IH: "for_step (a + 1) N N 1 body = run S (concat (map f [a + 1..<N]))"
    using Suc.hyps(2) Suc.prems ab by (intro Suc.hyps(1)) simp_all
  have "for_step a N N 1 body = seq (body a) (for_step (a + 1) N N 1 body)"
    by (rule for_step_unfold [OF le(1) le(2) le(2) ab ab]) simp
  also have "\<dots> = seq (run S (f a)) (run S (concat (map f [a + 1..<N])))"
    using IH Suc.prems(2) [of a] ab by simp
  also have "\<dots> = run S (concat (map f [a..<N]))"
    using ab by (simp add: run_append upt_conv_Cons)
  finally show ?case .
qed

lemma Transpose_Row_run:
  assumes N: "N + 1 \<le> INT_MAX"
  shows "Transpose_Row N S = run S (row_pairs 0 N)"
proof -
  have inner: "for_step (i + 1) N N 1 (\<lambda>j. swap (i * S + j) (j * S + i)) =
      run S (map (Pair i) [i + 1..<N])" if "i < N" for i
  proof -
    have "i + 1 \<le> N" using that by simp
    from for_step_1_run [OF N this, of "\<lambda>j. swap (i * S + j) (j * S + i)" S "\<lambda>j. [(i, j)]"]
    show ?thesis by (simp add: run_single)
  qed
  show ?thesis
    unfolding Transpose_Row_def row_pairs_def
  proof (rule for_step_1_run [OF N])
    show "0 \<le> N" by simp
    fix x assume "0 \<le> x" "x < N"
    then show "for_step (x + 1) N N 1 (\<lambda>j. swap (x * S + j) (j * S + x)) =
      run S (map (Pair x) [x + 1..<N])" by (intro inner)
  qed
qed

lemma row_pairs_rec:
  "a < N \<Longrightarrow> row_pairs a N = map (Pair a) [a + 1..<N] @ row_pairs (a + 1) N"
  by (simp add: row_pairs_def upt_conv_Cons)

lemma row_pairs_Nil: "\<not> a < N \<Longrightarrow> row_pairs a N = []"
  by (simp add: row_pairs_def)

lemma set_row_pairs: "set (row_pairs a N) = {(i, j). a \<le> i \<and> i < j \<and> j < N}"
  by (force simp: row_pairs_def)

lemma distinct_row_pairs: "distinct (row_pairs a N)"
proof (induction "N - a" arbitrary: a)
  case 0
  then show ?case by (simp add: row_pairs_Nil)
next
  case (Suc n)
  then have aN: "a < N" by simp
  have 1: "distinct (row_pairs (a + 1) N)" using Suc by (intro Suc.hyps(1)) simp
  have 2: "distinct (map (Pair a) [a + 1..<N])" by (simp add: distinct_map inj_on_def)
  have 3: "set (map (Pair a) [a + 1..<N]) \<inter> set (row_pairs (a + 1) N) = {}"
    unfolding set_row_pairs by auto
  show ?case
    unfolding row_pairs_rec [OF aN] distinct_append using 1 2 3 by blast
qed

lemma length_row_pairs: "2 * length (row_pairs a N) = (N - a) * (N - a - 1)"
proof (induction "N - a" arbitrary: a)
  case 0
  then show ?case by (simp add: row_pairs_Nil)
next
  case (Suc n)
  then have aN: "a < N" and n: "N - (a + 1) = n" "N - a = Suc n" by simp_all
  have "2 * length (row_pairs (a + 1) N) = (N - (a + 1)) * (N - (a + 1) - 1)"
    using Suc by (intro Suc.hyps(1)) simp
  moreover have "N - (a + 1) - 1 = n - 1" using n by arith
  ultimately have ih: "2 * length (row_pairs (a + 1) N) = n * (n - 1)" using n(1) by simp
  have "length (row_pairs a N) = n + length (row_pairs (a + 1) N)"
    using aN n by (simp add: row_pairs_rec)
  then have "2 * length (row_pairs a N) = 2 * n + n * (n - 1)" using ih by simp
  also have "\<dots> = Suc n * n" by (cases n) simp_all
  finally show ?case using n by simp
qed

lemma count_list_distinct:
  "distinct xs \<Longrightarrow> count_list xs x = (if x \<in> set xs then 1 else 0)"
  by (induction xs) auto

lemma flipped_row_pairs:
  assumes "i < N" "j < N" "i \<noteq> j"
  shows "flipped (row_pairs 0 N) i j"
proof -
  have d: "count_list (row_pairs 0 N) p = (if p \<in> set (row_pairs 0 N) then 1 else 0)" for p
    using distinct_row_pairs [where a = 0 and N = N] by (rule count_list_distinct)
  show ?thesis
    using assms by (auto simp: flipped_def d set_row_pairs)
qed

lemma diag_not_accessed:
  assumes "i < N" "N \<le> S"
  shows "i * S + i \<notin> set (accesses S (row_pairs a N))"
proof
  assume "i * S + i \<in> set (accesses S (row_pairs a N))"
  then obtain x y where xy: "(x, y) \<in> set (row_pairs a N)"
      "i * S + i = x * S + y \<or> i * S + i = y * S + x"
    by (auto simp: accesses_def)
  then have "x < y" "y < N" by (auto simp: set_row_pairs)
  then have "x < S" "y < S" "i < S" using assms by simp_all
  then show False using xy(2) \<open>x < y\<close> by (auto simp: idx_inj)
qed

section \<open>The range of int\<close>

text \<open>A square matrix whose cells can all be indexed has a dimension of at most 46340.\<close>

lemma dimension_bound:
  assumes "N \<le> S" "S * N \<le> INT_MAX"
  shows "N \<le> 46340"
proof (rule ccontr)
  assume "\<not> N \<le> 46340"
  then have "46341 \<le> N" by arith
  then have "46341 * 46341 \<le> N * N" by (intro mult_le_mono)
  also have "\<dots> \<le> S * N" using assms(1) by simp
  finally show False using assms(2) by (simp add: INT_MAX_def)
qed

lemma length_zeros_46341: "length (cells zeros_46341) = 46341 * 46341"
  by (simp add: zeros_46341_def)

lemma length_zeros_46320: "length (cells zeros_46320) = 46383 * 46320"
  by (simp add: zeros_46320_def)

text \<open>
  With dimension and stride 46341, the row-by-row variant reaches the pair
  \<open>(46339, 46340)\<close>, whose index \<open>46340 * 46341 + 46339 = 2147488279\<close> is above
  \<open>INT_MAX\<close>. With dimension 46320 and its padded stride 46383 it reaches the pair
  \<open>(46318, 46319)\<close> with the index \<open>46319 * 46383 + 46318 = 2148460495\<close>.
\<close>

lemma Transpose_Row_46341: "Transpose_Row 46341 46341 zeros_46341 = Inl Int_Overflow"
proof -
  have "run 46341 (row_pairs 0 46341) zeros_46341 = Inl Int_Overflow"
  proof (rule run_overflow [where N = 46341 and i = 46339 and j = 46340])
    show "set (row_pairs 0 46341) \<subseteq> {..<46341} \<times> {..<46341}"
      by (auto simp: set_row_pairs)
    show "(46339, 46340) \<in> set (row_pairs 0 46341)" by (simp add: set_row_pairs)
    show "46341 * 46341 \<le> length (cells zeros_46341)" by (simp add: length_zeros_46341)
    show "INT_MAX < 46340 * 46341 + 46339" by (simp add: INT_MAX_def)
  qed simp
  moreover have "(46341::nat) + 1 \<le> INT_MAX" by (simp add: INT_MAX_def)
  ultimately show ?thesis by (simp add: Transpose_Row_run)
qed

lemma Transpose_Row_46320: "Transpose_Row 46320 46383 zeros_46320 = Inl Int_Overflow"
proof -
  have "run 46383 (row_pairs 0 46320) zeros_46320 = Inl Int_Overflow"
  proof (rule run_overflow [where N = 46320 and i = 46318 and j = 46319])
    show "set (row_pairs 0 46320) \<subseteq> {..<46320} \<times> {..<46320}"
      by (auto simp: set_row_pairs)
    show "(46318, 46319) \<in> set (row_pairs 0 46320)" by (simp add: set_row_pairs)
    show "46383 * 46320 \<le> length (cells zeros_46320)" by (simp add: length_zeros_46320)
    show "INT_MAX < 46319 * 46383 + 46318" by (simp add: INT_MAX_def)
  qed simp
  moreover have "(46320::nat) + 1 \<le> INT_MAX" by (simp add: INT_MAX_def)
  ultimately show ?thesis by (simp add: Transpose_Row_run)
qed

section \<open>Padding\<close>

lemma pad_eq:
  "pad N = (if INT_MAX < N + (111 - N mod 64) mod 64 then Inl Int_Overflow
            else Inr (N + (111 - N mod 64) mod 64))"
  by (simp add: pad_def pad_with_def PAD_def add_int_def INT_MAX_def)

lemma pad_cases:
  fixes N :: nat
  shows "N + (111 - N mod 64) mod 64 =
     (if N mod 64 \<le> 47 then 64 * (N div 64) + 47 else 64 * (N div 64) + 111)"
proof -
  define r where "r = N mod 64"
  have r: "r < 64" and N: "N = 64 * (N div 64) + r" by (simp_all add: r_def)
  have "(111 - r) mod 64 = (if r \<le> 47 then 47 - r else 111 - r)"
  proof (cases "r \<le> 47")
    case True
    then have "111 - r = 64 + (47 - r)" by simp
    then have "(111 - r) mod 64 = (47 - r) mod 64" by (simp only: mod_add_self1)
    then show ?thesis using True by simp
  next
    case False
    then show ?thesis using r by simp
  qed
  then have "N + (111 - N mod 64) mod 64 = N + (if r \<le> 47 then 47 - r else 111 - r)"
    by (simp only: r_def)
  then show ?thesis using N r unfolding r_def [symmetric] by (simp split: if_splits)
qed

lemma pad_mod: "(N + (111 - N mod 64) mod 64) mod 64 = (47::nat)"
  by (simp add: pad_cases)

lemma pad_least:
  fixes N t :: nat
  assumes "N \<le> t" "t mod 64 = 47"
  shows "N + (111 - N mod 64) mod 64 \<le> t"
proof -
  define r where "r = N mod 64"
  define q where "q = N div 64"
  define q' where "q' = t div 64"
  have N: "N = 64 * q + r" "r < 64" by (simp_all add: r_def q_def)
  have t: "t = 64 * q' + 47" using assms(2) mult_div_mod_eq [of 64 t] by (simp add: q'_def)
  have p: "N + (111 - N mod 64) mod 64 = (if r \<le> 47 then 64 * q + 47 else 64 * q + 111)"
    by (simp only: pad_cases r_def q_def)
  show ?thesis
  proof (cases "r \<le> 47")
    case True
    have "q \<le> q'"
    proof (rule ccontr)
      assume "\<not> q \<le> q'"
      then have "64 * (q' + 1) \<le> 64 * q" by (intro mult_le_mono2) simp
      then show False using N t assms(1) by simp
    qed
    then have "64 * q \<le> 64 * q'" by (rule mult_le_mono2)
    then show ?thesis using True p t by simp
  next
    case False
    have "q + 1 \<le> q'"
    proof (rule ccontr)
      assume "\<not> q + 1 \<le> q'"
      then have "64 * q' \<le> 64 * q" by (intro mult_le_mono2) simp
      then show False using N t assms(1) False by simp
    qed
    then have "64 * (q + 1) \<le> 64 * q'" by (rule mult_le_mono2)
    then show ?thesis using False p t by simp
  qed
qed

text \<open>The padded stride fits an \<^verbatim>\<open>int\<close> exactly for the dimensions up to \<open>INT_MAX - 16\<close>.\<close>

lemma pad_fits:
  assumes "N + 16 \<le> INT_MAX"
  shows "N + (111 - N mod 64) mod 64 \<le> INT_MAX"
proof -
  have "N \<le> 2147483631" "(2147483631::nat) mod 64 = 47"
    using assms by (simp_all add: INT_MAX_def)
  from pad_least [OF this] show ?thesis by (simp add: INT_MAX_def)
qed

lemma pad_Inr:
  assumes "N + 16 \<le> INT_MAX"
  shows "pad N = Inr (N + (111 - N mod 64) mod 64)"
  using pad_fits [OF assms] by (simp add: pad_eq)

lemma pad_overflows:
  assumes "INT_MAX < N + 16"
  shows "pad N = Inl Int_Overflow"
proof -
  define v where "v = N + (111 - N mod 64) mod 64"
  have v: "N \<le> v" "v = 64 * (v div 64) + 47"
    using pad_mod [of N] mult_div_mod_eq [of 64 v] by (simp_all add: v_def)
  have "33554432 \<le> v div 64"
  proof (rule ccontr)
    assume "\<not> 33554432 \<le> v div 64"
    then have "64 * (v div 64 + 1) \<le> 64 * 33554432" by (intro mult_le_mono2) simp
    then show False using v assms by (simp add: INT_MAX_def)
  qed
  then have "64 * 33554432 \<le> 64 * (v div 64)" by (rule mult_le_mono2)
  then have "INT_MAX < v" using v(2) by (simp add: INT_MAX_def)
  then show ?thesis by (simp add: pad_eq v_def)
qed

lemma pad_ge: "pad N = Inr N2 \<Longrightarrow> N \<le> N2"
  by (auto simp: pad_eq split: if_splits)

subsection \<open>Reading the predicates at one cell\<close>

lemma diagonal_fixedD:
  "diagonal_fixed N S s r \<Longrightarrow> i < N \<Longrightarrow>
     \<exists>s'. r = Inr s' \<and> cells s' ! (i * S + i) = cells s ! (i * S + i)"
  by (auto simp: diagonal_fixed_def split: sum.splits)

lemma leaves_paddingD:
  "leaves_padding N S s r \<Longrightarrow> N \<le> c \<Longrightarrow> c < S \<Longrightarrow>
     \<exists>s' tr. r = Inr s' \<and> touched s' = touched s @ tr \<and> i * S + c \<notin> set tr \<and>
       cells s' ! (i * S + c) = cells s ! (i * S + c)"
  unfolding leaves_padding_def by blast

lemma in_boundsD: "in_bounds s r \<Longrightarrow> \<exists>s'. r = Inr s'"
  unfolding in_bounds_def by blast

subsection \<open>The loop nests with the block sizes of the source\<close>

lemma oblivious_variants:
  assumes "N \<le> S" "S * N \<le> INT_MAX"
  shows "oblivious N S (Transpose_Row N S)"
    and "oblivious N S (Transpose_Block N S 64)"
    and "oblivious N S (Transpose_Block2 N S 4 1040)"
    and "oblivious N N (transpose_rec N N 0 0 0 0)"
proof -
  have N: "N \<le> 46340" by (rule dimension_bound [OF assms])
  then have le: "N + 1 \<le> INT_MAX" "N + 64 \<le> INT_MAX" "N + 4 \<le> INT_MAX" "N + 1040 \<le> INT_MAX"
    by (simp_all add: INT_MAX_def)
  show "oblivious N S (Transpose_Row N S)" by (rule oblivious_Row [OF le(1)])
  show "oblivious N S (Transpose_Block N S 64)" by (rule oblivious_Block [OF _ le(2)]) simp
  show "oblivious N S (Transpose_Block2 N S 4 1040)"
    by (rule oblivious_Block2 [OF _ _ le(3,4)]) simp_all
  show "oblivious N N (transpose_rec N N 0 0 0 0)" by (rule oblivious_Rec [OF le(1)])
qed

lemma BM_Transpose_Rec_eq:
  "N * N \<le> INT_MAX \<Longrightarrow> BM_Transpose_Rec N = transpose_rec N N 0 0 0 0"
  by (rule ext) (simp add: BM_Transpose_Rec_def)

lemma square_le:
  fixes N S :: nat
  assumes "N \<le> S" "S * N \<le> M"
  shows "N * N \<le> M"
proof -
  have "N * N \<le> S * N" using assms(1) by (rule mult_le_mono1)
  then show ?thesis using assms(2) by (rule order_trans)
qed


section \<open>Properties of the padding and of the four variants\<close>

text \<open>
  C6, amended. For every \<open>N \<ge> 1\<close> with \<open>N + 16 \<le> INT_MAX\<close>, \<open>pad\<close> with the residue 47
  of the source returns the smallest stride that is at least \<open>N\<close> and leaves the
  remainder 47 when divided by 64; the stride exceeds \<open>N\<close> by less than \<open>64 + 47\<close>; with
  the residue 0 the function returns \<open>N\<close> itself. (The model of \<open>pad\<close> is a function of
  its arguments alone.)
\<close>

theorem pad_smallest_stride:
  assumes "1 \<le> N" "N + 16 \<le> INT_MAX"
  shows "\<exists>st. pad N = Inr st \<and> N \<le> st \<and> st mod 64 = 47 \<and>
           (\<forall>t. N \<le> t \<and> t mod 64 = 47 \<longrightarrow> st \<le> t) \<and>
           st - N < 64 + 47 \<and> pad_with 0 N = Inr N"
proof -
  define st where "st = N + (111 - N mod 64) mod 64"
  have "pad N = Inr st" unfolding st_def by (rule pad_Inr [OF assms(2)])
  moreover have "N \<le> st" by (simp add: st_def)
  moreover have "st mod 64 = 47" unfolding st_def by (rule pad_mod)
  moreover have "\<forall>t. N \<le> t \<and> t mod 64 = 47 \<longrightarrow> st \<le> t"
    unfolding st_def using pad_least [of N] by blast
  moreover have "st - N < 64 + 47" by (simp add: st_def)
  moreover have "pad_with 0 N = Inr N"
    using assms(2) by (simp add: pad_with_def add_int_def)
  ultimately show ?thesis by blast
qed

theorem pad_smallest_stride_witness:
  "(1::nat) \<le> 3 \<and> 3 + 16 \<le> INT_MAX \<and> pad 3 = Inr 47 \<and>
   (3::nat) \<le> 111 \<and> (111::nat) mod 64 = 47 \<and> (47::nat) \<le> 111 \<and>
   pad_with 0 3 = Inr 3"
proof -
  have h: "(1::nat) \<le> 3" "3 + 16 \<le> INT_MAX" by (simp_all add: INT_MAX_def)
  have t: "(3::nat) \<le> 111" "(111::nat) mod 64 = 47" by simp_all
  from pad_smallest_stride [OF h] obtain st where st:
    "pad 3 = Inr st" "\<forall>t. 3 \<le> t \<and> t mod 64 = 47 \<longrightarrow> st \<le> t" "pad_with 0 3 = Inr 3"
    by blast
  have "pad 3 = Inr 47" by (simp add: pad_eq INT_MAX_def)
  with st(1) have e: "st = 47" by simp
  from st(2) t have "st \<le> 111" by blast
  with e st h t show ?thesis by simp
qed

text \<open>
  C6 as stated, for every \<open>N \<ge> 1\<close>, fails at \<open>N = INT_MAX\<close>: the sum \<^verbatim>\<open>N + 48\<close> is
  2147483695 and does not fit an \<^verbatim>\<open>int\<close>.
\<close>

theorem pad_overflows_at_INT_MAX:
  "(1::nat) \<le> 2147483647 \<and> 2147483647 \<le> INT_MAX \<and> pad 2147483647 = Inl Int_Overflow"
  by (simp add: pad_eq INT_MAX_def)

text \<open>
  C4, amended. For every \<open>N \<ge> 1\<close> and every stride \<open>S \<ge> N\<close> with \<open>S * N \<le> INT_MAX\<close>, on a
  buffer that holds the \<open>S * N\<close> cells of the matrix, the row-by-row variant has a
  result in which the cell \<open>(i, j)\<close> holds what the cell \<open>(j, i)\<close> held, for all
  \<open>i, j < N\<close>. It performs \<open>N (N - 1) / 2\<close> swaps (two accesses each) and uses no cell of
  the diagonal. With \<open>N = 3\<close>, stride 3 and the buffer 1, \<dots>, 9 the result is
  1, 4, 7, 2, 5, 8, 3, 6, 9.
\<close>

theorem Transpose_Row_correct:
  assumes "1 \<le> N" "N \<le> S" "S * N \<le> INT_MAX" "S * N \<le> length (cells s)"
  shows "\<exists>s' tr. Transpose_Row N S s = Inr s' \<and>
           length (cells s') = length (cells s) \<and>
           (\<forall>i<N. \<forall>j<N. cells s' ! (i * S + j) = cells s ! (j * S + i)) \<and>
           touched s' = touched s @ tr \<and> length tr = 2 * (N * (N - 1) div 2) \<and>
           (\<forall>i<N. i * S + i \<notin> set tr) \<and>
           result (Transpose_Row 3 3 \<lparr>cells = [1, 2, 3, 4, 5, 6, 7, 8, 9], touched = []\<rparr>)
             = Some [1, 4, 7, 2, 5, 8, 3, 6, 9]"
proof -
  have "N \<le> 46340" by (rule dimension_bound [OF assms(2,3)])
  then have N1: "N + 1 \<le> INT_MAX" by (simp add: INT_MAX_def)
  have sub: "set (row_pairs 0 N) \<subseteq> {..<N} \<times> {..<N}"
    by (auto simp: set_row_pairs)
  from run_effect [OF sub assms(2,4,3)] obtain s' where s':
    "run S (row_pairs 0 N) s = Inr s'" "length (cells s') = length (cells s)"
    "touched s' = touched s @ accesses S (row_pairs 0 N)"
    "\<forall>i<N. \<forall>j<N. cells s' ! (i * S + j) =
        (if flipped (row_pairs 0 N) i j then cells s ! (j * S + i) else cells s ! (i * S + j))"
    by blast
  have A: "Transpose_Row N S s = Inr s'" using s'(1) by (simp only: Transpose_Row_run [OF N1])
  have B: "\<forall>i<N. \<forall>j<N. cells s' ! (i * S + j) = cells s ! (j * S + i)"
  proof (intro allI impI)
    fix i j assume ij: "i < N" "j < N"
    show "cells s' ! (i * S + j) = cells s ! (j * S + i)"
    proof (cases "i = j")
      case True
      then show ?thesis using s'(4) ij by (simp add: flipped_diag)
    next
      case False
      then show ?thesis using s'(4) ij flipped_row_pairs [OF ij False] by simp
    qed
  qed
  have C: "length (accesses S (row_pairs 0 N)) = 2 * (N * (N - 1) div 2)"
  proof -
    have "N * (N - 1) = 2 * length (row_pairs 0 N)"
      using length_row_pairs [of 0 N] by simp
    then show ?thesis by (simp add: length_accesses)
  qed
  have D: "\<forall>i<N. i * S + i \<notin> set (accesses S (row_pairs 0 N))"
    using diag_not_accessed [OF _ assms(2), of _ 0] by blast
  have E: "result (Transpose_Row 3 3 \<lparr>cells = [1, 2, 3, 4, 5, 6, 7, 8, 9], touched = []\<rparr>)
             = Some [1, 4, 7, 2, 5, 8, 3, 6, 9]"
    by code_simp
  show ?thesis
    using A s'(2) B s'(3) C D E by blast
qed

theorem Transpose_Row_correct_witness:
  "(1::nat) \<le> 3 \<and> (3::nat) \<le> 3 \<and> 3 * 3 \<le> INT_MAX \<and>
   3 * 3 \<le> length (cells \<lparr>cells = [1, 2, 3, 4, 5, 6, 7, 8, 9], touched = []\<rparr>) \<and>
   (\<exists>s'. Transpose_Row 3 3 \<lparr>cells = [1, 2, 3, 4, 5, 6, 7, 8, 9], touched = []\<rparr> = Inr s' \<and>
      cells s' ! 5 = 8 \<and> cells s' ! 7 = 6)"
proof -
  have h: "(1::nat) \<le> 3" "(3::nat) \<le> 3" "3 * 3 \<le> INT_MAX"
    "3 * 3 \<le> length (cells \<lparr>cells = [1, 2, 3, 4, 5, 6, 7, 8, 9], touched = []\<rparr>)"
    by (simp_all add: INT_MAX_def)
  from Transpose_Row_correct [OF h] obtain s' where r:
    "Transpose_Row 3 3 \<lparr>cells = [1, 2, 3, 4, 5, 6, 7, 8, 9], touched = []\<rparr> = Inr s'"
    and c: "\<forall>i<3. \<forall>j<3. cells s' ! (i * 3 + j) =
       cells \<lparr>cells = [1, 2, 3, 4, 5, 6, 7, 8, 9], touched = []\<rparr> ! (j * 3 + i)"
    by blast
  from c [rule_format, of 1 2] have "cells s' ! 5 = 8" by simp
  moreover from c [rule_format, of 2 1] have "cells s' ! 7 = 6" by simp
  ultimately show ?thesis using r h by blast
qed

text \<open>
  C4 as stated, for every stride \<open>S \<ge> N\<close>, fails at \<open>N = S = 46341\<close> on a buffer of
  \<open>46341 * 46341\<close> cells: the index expression \<^verbatim>\<open>j*N2+i\<close> of the pair \<open>(46339, 46340)\<close>
  does not fit an \<^verbatim>\<open>int\<close>, and the run has no result.
\<close>

theorem Transpose_Row_overflows:
  "(1::nat) \<le> 46341 \<and> (46341::nat) \<le> 46341 \<and>
   46341 * 46341 \<le> length (cells zeros_46341) \<and>
   Transpose_Row 46341 46341 zeros_46341 = Inl Int_Overflow \<and>
   result (Transpose_Row 46341 46341 zeros_46341) = None"
  by (simp add: Transpose_Row_46341 length_zeros_46341 result_def)

text \<open>
  C5, amended. For every \<open>N \<ge> 1\<close>, every stride \<open>S \<ge> N\<close> with \<open>S * N \<le> INT_MAX\<close> and
  every buffer that holds the matrix in the layout of the variant (stride \<open>S\<close> for the
  three loop nests, stride \<open>N\<close> for the recursive one), running the same variant
  twice in succession has a result, and every cell of the buffer is back at its
  first value. The block sizes are those of the source.
\<close>

theorem transpose_twice_restores:
  assumes "1 \<le> N" "N \<le> S" "S * N \<le> INT_MAX"
    and "S * N \<le> length (cells s)" "N * N \<le> length (cells t)"
  shows "restores (Transpose_Row N S) s \<and> restores (Transpose_Block N S 64) s \<and>
         restores (Transpose_Block2 N S 4 1040) s \<and> restores (BM_Transpose_Rec N) t"
proof -
  note ob = oblivious_variants [OF assms(2,3)]
  have NN: "N * N \<le> INT_MAX" by (rule square_le [OF assms(2,3)])
  have "restores (Transpose_Row N S) s"
    by (rule oblivious_restores [OF ob(1) assms(2,4,3)])
  moreover have "restores (Transpose_Block N S 64) s"
    by (rule oblivious_restores [OF ob(2) assms(2,4,3)])
  moreover have "restores (Transpose_Block2 N S 4 1040) s"
    by (rule oblivious_restores [OF ob(3) assms(2,4,3)])
  moreover have "restores (BM_Transpose_Rec N) t"
    unfolding BM_Transpose_Rec_eq [OF NN]
    by (rule oblivious_restores [OF ob(4) order_refl assms(5) NN])
  ultimately show ?thesis by blast
qed

theorem transpose_twice_restores_witness:
  "(1::nat) \<le> 3 \<and> (3::nat) \<le> 3 \<and> 3 * 3 \<le> INT_MAX \<and>
   3 * 3 \<le> length (cells \<lparr>cells = [1, 2, 3, 4, 5, 6, 7, 8, 9], touched = []\<rparr>) \<and>
   restores (Transpose_Row 3 3) \<lparr>cells = [1, 2, 3, 4, 5, 6, 7, 8, 9], touched = []\<rparr> \<and>
   restores (Transpose_Block 3 3 64) \<lparr>cells = [1, 2, 3, 4, 5, 6, 7, 8, 9], touched = []\<rparr> \<and>
   restores (Transpose_Block2 3 3 4 1040) \<lparr>cells = [1, 2, 3, 4, 5, 6, 7, 8, 9], touched = []\<rparr> \<and>
   restores (BM_Transpose_Rec 3) \<lparr>cells = [1, 2, 3, 4, 5, 6, 7, 8, 9], touched = []\<rparr>"
proof -
  have h: "(1::nat) \<le> 3" "(3::nat) \<le> 3" "3 * 3 \<le> INT_MAX"
    "3 * 3 \<le> length (cells \<lparr>cells = [1, 2, 3, 4, 5, 6, 7, 8, 9], touched = []\<rparr>)"
    by (simp_all add: INT_MAX_def)
  from transpose_twice_restores [OF h h(4)] h show ?thesis by blast
qed

text \<open>
  C5 as stated, for every \<open>N \<ge> 1\<close>, fails at \<open>N = 46320\<close> with the padded stride
  \<open>pad 46320 = 46383\<close> on a buffer of \<open>46383 * 46320\<close> cells: already the first run of
  the row-by-row variant ends in an overflow of \<^verbatim>\<open>int\<close>.
\<close>

theorem transpose_twice_overflows:
  "(1::nat) \<le> 46320 \<and> pad 46320 = Inr 46383 \<and>
   46383 * 46320 \<le> length (cells zeros_46320) \<and>
   \<not> restores (Transpose_Row 46320 46383) zeros_46320"
  by (simp add: Transpose_Row_46320 length_zeros_46320 restores_def pad_eq INT_MAX_def)

text \<open>
  C8, amended. For every \<open>N \<ge> 1\<close>, every stride \<open>S \<ge> N\<close> with \<open>S * N \<le> INT_MAX\<close>, every
  buffer that holds the matrix and every \<open>i < N\<close>, one run of any of the four
  variants has a result in which the cell \<open>(i, i)\<close> holds what it held before.
\<close>

theorem diagonal_is_fixed:
  assumes "1 \<le> N" "N \<le> S" "S * N \<le> INT_MAX"
    and "S * N \<le> length (cells s)" "N * N \<le> length (cells t)"
  shows "diagonal_fixed N S s (Transpose_Row N S s) \<and>
         diagonal_fixed N S s (Transpose_Block N S 64 s) \<and>
         diagonal_fixed N S s (Transpose_Block2 N S 4 1040 s) \<and>
         diagonal_fixed N N t (BM_Transpose_Rec N t)"
proof -
  note ob = oblivious_variants [OF assms(2,3)]
  have NN: "N * N \<le> INT_MAX" by (rule square_le [OF assms(2,3)])
  have "diagonal_fixed N S s (Transpose_Row N S s)"
    by (rule oblivious_diagonal [OF ob(1) assms(2,4,3)])
  moreover have "diagonal_fixed N S s (Transpose_Block N S 64 s)"
    by (rule oblivious_diagonal [OF ob(2) assms(2,4,3)])
  moreover have "diagonal_fixed N S s (Transpose_Block2 N S 4 1040 s)"
    by (rule oblivious_diagonal [OF ob(3) assms(2,4,3)])
  moreover have "diagonal_fixed N N t (BM_Transpose_Rec N t)"
    unfolding BM_Transpose_Rec_eq [OF NN]
    by (rule oblivious_diagonal [OF ob(4) order_refl assms(5) NN])
  ultimately show ?thesis by blast
qed

theorem diagonal_is_fixed_witness:
  "(1::nat) \<le> 3 \<and> (3::nat) \<le> 3 \<and> 3 * 3 \<le> INT_MAX \<and>
   3 * 3 \<le> length (cells \<lparr>cells = [1, 2, 3, 4, 5, 6, 7, 8, 9], touched = []\<rparr>) \<and>
   (\<exists>s'. Transpose_Row 3 3 \<lparr>cells = [1, 2, 3, 4, 5, 6, 7, 8, 9], touched = []\<rparr> = Inr s' \<and> cells s' ! 4 = 5) \<and>
   (\<exists>s'. Transpose_Block 3 3 64 \<lparr>cells = [1, 2, 3, 4, 5, 6, 7, 8, 9], touched = []\<rparr> = Inr s' \<and> cells s' ! 4 = 5) \<and>
   (\<exists>s'. Transpose_Block2 3 3 4 1040 \<lparr>cells = [1, 2, 3, 4, 5, 6, 7, 8, 9], touched = []\<rparr> = Inr s' \<and> cells s' ! 4 = 5) \<and>
   (\<exists>s'. BM_Transpose_Rec 3 \<lparr>cells = [1, 2, 3, 4, 5, 6, 7, 8, 9], touched = []\<rparr> = Inr s' \<and> cells s' ! 4 = 5)"
proof -
  have h: "(1::nat) \<le> 3" "(3::nat) \<le> 3" "3 * 3 \<le> INT_MAX"
    "3 * 3 \<le> length (cells \<lparr>cells = [1, 2, 3, 4, 5, 6, 7, 8, 9], touched = []\<rparr>)"
    by (simp_all add: INT_MAX_def)
  have i: "(1::nat) < 3" by simp
  note d = diagonal_is_fixed [OF h h(4)]
  have "\<exists>s'. Transpose_Row 3 3 \<lparr>cells = [1, 2, 3, 4, 5, 6, 7, 8, 9], touched = []\<rparr> = Inr s' \<and> cells s' ! 4 = 5"
    using diagonal_fixedD [OF d [THEN conjunct1] i] by simp
  moreover have "\<exists>s'. Transpose_Block 3 3 64 \<lparr>cells = [1, 2, 3, 4, 5, 6, 7, 8, 9], touched = []\<rparr> = Inr s' \<and> cells s' ! 4 = 5"
    using diagonal_fixedD [OF d [THEN conjunct2, THEN conjunct1] i] by simp
  moreover have "\<exists>s'. Transpose_Block2 3 3 4 1040 \<lparr>cells = [1, 2, 3, 4, 5, 6, 7, 8, 9], touched = []\<rparr> = Inr s' \<and> cells s' ! 4 = 5"
    using diagonal_fixedD [OF d [THEN conjunct2, THEN conjunct2, THEN conjunct1] i] by simp
  moreover have "\<exists>s'. BM_Transpose_Rec 3 \<lparr>cells = [1, 2, 3, 4, 5, 6, 7, 8, 9], touched = []\<rparr> = Inr s' \<and> cells s' ! 4 = 5"
    using diagonal_fixedD [OF d [THEN conjunct2, THEN conjunct2, THEN conjunct2] i] by simp
  ultimately show ?thesis using h by blast
qed

text \<open>
  C8 as stated, for every \<open>N \<ge> 1\<close>, fails at \<open>N = 46320\<close> with the padded stride 46383
  on a buffer of \<open>46383 * 46320\<close> cells: the row-by-row variant ends in an overflow of
  \<^verbatim>\<open>int\<close> and leaves no buffer whose diagonal could be read.
\<close>

theorem diagonal_overflows:
  "(1::nat) \<le> 46320 \<and> pad 46320 = Inr 46383 \<and>
   46383 * 46320 \<le> length (cells zeros_46320) \<and>
   \<not> diagonal_fixed 46320 46383 zeros_46320 (Transpose_Row 46320 46383 zeros_46320)"
  by (simp add: Transpose_Row_46320 length_zeros_46320 diagonal_fixed_def pad_eq INT_MAX_def)

text \<open>
  C9, amended. For every \<open>N \<ge> 1\<close> whose padded stride \<open>N2 = pad N\<close> exceeds \<open>N\<close>, with
  \<open>N2 * N \<le> INT_MAX\<close>, and every buffer of at least \<open>N2 * N\<close> cells, one run of the
  row-by-row, the block and the two-level block benchmark has a result; every index
  the run hands to the buffer is \<open>i * N2 + j\<close> for some \<open>i, j < N\<close>; no cell in the
  columns \<open>N, \<dots>, N2 - 1\<close> of a row is accessed, and each holds its first value
  afterwards.
\<close>

theorem padding_never_observed:
  assumes "1 \<le> N" "pad N = Inr N2" "N < N2" "N2 * N \<le> INT_MAX"
    and "N2 * N \<le> length (cells s)"
  shows "leaves_padding N N2 s (BM_Transpose_Row N s) \<and>
         leaves_padding N N2 s (BM_Transpose_Block N s) \<and>
         leaves_padding N N2 s (BM_Transpose_Block2 N s)"
proof -
  have le: "N \<le> N2" using assms(3) by simp
  note ob = oblivious_variants [OF le assms(4)]
  have e: "BM_Transpose_Row N s = Transpose_Row N N2 s"
    "BM_Transpose_Block N s = Transpose_Block N N2 64 s"
    "BM_Transpose_Block2 N s = Transpose_Block2 N N2 4 1040 s"
    using assms(2,4)
    by (simp_all add: BM_Transpose_Row_def BM_Transpose_Block_def BM_Transpose_Block2_def)
  have "leaves_padding N N2 s (BM_Transpose_Row N s)"
    unfolding e by (rule oblivious_leaves_padding [OF ob(1) le assms(5,4)])
  moreover have "leaves_padding N N2 s (BM_Transpose_Block N s)"
    unfolding e by (rule oblivious_leaves_padding [OF ob(2) le assms(5,4)])
  moreover have "leaves_padding N N2 s (BM_Transpose_Block2 N s)"
    unfolding e by (rule oblivious_leaves_padding [OF ob(3) le assms(5,4)])
  ultimately show ?thesis by blast
qed

theorem padding_never_observed_witness:
  "(1::nat) \<le> 3 \<and> pad 3 = Inr 47 \<and> (3::nat) < 47 \<and> 47 * 3 \<le> INT_MAX \<and>
   47 * 3 \<le> length (cells \<lparr>cells = map int [0..<141], touched = []\<rparr>) \<and>
   (\<exists>s' tr. BM_Transpose_Row 3 \<lparr>cells = map int [0..<141], touched = []\<rparr> = Inr s' \<and>
      touched s' = tr \<and> 97 \<notin> set tr \<and> cells s' ! 97 = 97) \<and>
   (\<exists>s' tr. BM_Transpose_Block 3 \<lparr>cells = map int [0..<141], touched = []\<rparr> = Inr s' \<and>
      touched s' = tr \<and> 97 \<notin> set tr \<and> cells s' ! 97 = 97) \<and>
   (\<exists>s' tr. BM_Transpose_Block2 3 \<lparr>cells = map int [0..<141], touched = []\<rparr> = Inr s' \<and>
      touched s' = tr \<and> 97 \<notin> set tr \<and> cells s' ! 97 = 97)"
proof -
  have h: "(1::nat) \<le> 3" "pad 3 = Inr 47" "(3::nat) < 47" "47 * 3 \<le> INT_MAX"
    "47 * 3 \<le> length (cells \<lparr>cells = map int [0..<141], touched = []\<rparr>)"
    by (simp_all add: pad_eq INT_MAX_def)
  have c: "(3::nat) \<le> 3" "(3::nat) < 47" by simp_all
  have v: "cells \<lparr>cells = map int [0..<141], touched = []\<rparr> ! (2 * 47 + 3) = 97" by simp
  note d = padding_never_observed [OF h]
  have "\<exists>s' tr. BM_Transpose_Row 3 \<lparr>cells = map int [0..<141], touched = []\<rparr> = Inr s' \<and>
      touched s' = tr \<and> 97 \<notin> set tr \<and> cells s' ! 97 = 97"
    using leaves_paddingD [OF d [THEN conjunct1] c, of 2] v by simp
  moreover have "\<exists>s' tr. BM_Transpose_Block 3 \<lparr>cells = map int [0..<141], touched = []\<rparr> = Inr s' \<and>
      touched s' = tr \<and> 97 \<notin> set tr \<and> cells s' ! 97 = 97"
    using leaves_paddingD [OF d [THEN conjunct2, THEN conjunct1] c, of 2] v by simp
  moreover have "\<exists>s' tr. BM_Transpose_Block2 3 \<lparr>cells = map int [0..<141], touched = []\<rparr> = Inr s' \<and>
      touched s' = tr \<and> 97 \<notin> set tr \<and> cells s' ! 97 = 97"
    using leaves_paddingD [OF d [THEN conjunct2, THEN conjunct2] c, of 2] v by simp
  ultimately show ?thesis using h by blast
qed

text \<open>
  C9 as stated, for every \<open>N \<ge> 1\<close> with \<open>pad N > N\<close>, fails at \<open>N = 46320\<close>: the padded
  stride is 46383, the number \<^verbatim>\<open>N2*N\<close> of cells does not fit an \<^verbatim>\<open>int\<close>, and on a
  buffer of \<open>46383 * 46320\<close> cells the loop nest itself ends in an overflow of the
  index expression instead of a result.
\<close>

theorem padding_overflows:
  "(1::nat) \<le> 46320 \<and> pad 46320 = Inr 46383 \<and> (46320::nat) < 46383 \<and>
   46383 * 46320 \<le> length (cells zeros_46320) \<and>
   BM_Transpose_Row 46320 zeros_46320 = Inl Int_Overflow \<and>
   Transpose_Row 46320 46383 zeros_46320 = Inl Int_Overflow \<and>
   \<not> leaves_padding 46320 46383 zeros_46320 (BM_Transpose_Row 46320 zeros_46320)"
proof -
  have p: "pad 46320 = Inr 46383" by (simp add: pad_eq INT_MAX_def)
  then have b: "BM_Transpose_Row 46320 zeros_46320 = Inl Int_Overflow"
    by (simp add: BM_Transpose_Row_def INT_MAX_def)
  then have "\<not> leaves_padding 46320 46383 zeros_46320 (BM_Transpose_Row 46320 zeros_46320)"
    by (simp add: leaves_padding_def)
  with p b show ?thesis by (simp add: Transpose_Row_46320 length_zeros_46320)
qed

text \<open>
  C10, amended. For every \<open>N \<ge> 1\<close>, every stride \<open>S \<ge> N\<close> with \<open>S * N \<le> INT_MAX\<close> and
  every buffer of at least \<open>S * N\<close> cells (at least \<open>N * N\<close> cells and stride \<open>N\<close> for the
  recursive variant), one run of any of the four variants ends without a fault, and
  every index that the run hands to the buffer is smaller than the length of the
  buffer.
\<close>

theorem indices_in_bounds:
  assumes "1 \<le> N" "N \<le> S" "S * N \<le> INT_MAX"
    and "S * N \<le> length (cells s)" "N * N \<le> length (cells t)"
  shows "in_bounds s (Transpose_Row N S s) \<and> in_bounds s (Transpose_Block N S 64 s) \<and>
         in_bounds s (Transpose_Block2 N S 4 1040 s) \<and> in_bounds t (BM_Transpose_Rec N t)"
proof -
  note ob = oblivious_variants [OF assms(2,3)]
  have NN: "N * N \<le> INT_MAX" by (rule square_le [OF assms(2,3)])
  have "in_bounds s (Transpose_Row N S s)"
    by (rule oblivious_in_bounds [OF ob(1) assms(2,4,3)])
  moreover have "in_bounds s (Transpose_Block N S 64 s)"
    by (rule oblivious_in_bounds [OF ob(2) assms(2,4,3)])
  moreover have "in_bounds s (Transpose_Block2 N S 4 1040 s)"
    by (rule oblivious_in_bounds [OF ob(3) assms(2,4,3)])
  moreover have "in_bounds t (BM_Transpose_Rec N t)"
    unfolding BM_Transpose_Rec_eq [OF NN]
    by (rule oblivious_in_bounds [OF ob(4) order_refl assms(5) NN])
  ultimately show ?thesis by blast
qed

theorem indices_in_bounds_witness:
  "(1::nat) \<le> 3 \<and> (3::nat) \<le> 3 \<and> 3 * 3 \<le> INT_MAX \<and>
   3 * 3 \<le> length (cells \<lparr>cells = [1, 2, 3, 4, 5, 6, 7, 8, 9], touched = []\<rparr>) \<and>
   (\<exists>s'. Transpose_Row 3 3 \<lparr>cells = [1, 2, 3, 4, 5, 6, 7, 8, 9], touched = []\<rparr> = Inr s') \<and>
   (\<exists>s'. Transpose_Block 3 3 64 \<lparr>cells = [1, 2, 3, 4, 5, 6, 7, 8, 9], touched = []\<rparr> = Inr s') \<and>
   (\<exists>s'. Transpose_Block2 3 3 4 1040 \<lparr>cells = [1, 2, 3, 4, 5, 6, 7, 8, 9], touched = []\<rparr> = Inr s') \<and>
   (\<exists>s'. BM_Transpose_Rec 3 \<lparr>cells = [1, 2, 3, 4, 5, 6, 7, 8, 9], touched = []\<rparr> = Inr s')"
proof -
  have h: "(1::nat) \<le> 3" "(3::nat) \<le> 3" "3 * 3 \<le> INT_MAX"
    "3 * 3 \<le> length (cells \<lparr>cells = [1, 2, 3, 4, 5, 6, 7, 8, 9], touched = []\<rparr>)"
    by (simp_all add: INT_MAX_def)
  note d = indices_in_bounds [OF h h(4)]
  have "\<exists>s'. Transpose_Row 3 3 \<lparr>cells = [1, 2, 3, 4, 5, 6, 7, 8, 9], touched = []\<rparr> = Inr s'"
    by (rule in_boundsD [OF d [THEN conjunct1]])
  moreover have "\<exists>s'. Transpose_Block 3 3 64 \<lparr>cells = [1, 2, 3, 4, 5, 6, 7, 8, 9], touched = []\<rparr> = Inr s'"
    by (rule in_boundsD [OF d [THEN conjunct2, THEN conjunct1]])
  moreover have "\<exists>s'. Transpose_Block2 3 3 4 1040 \<lparr>cells = [1, 2, 3, 4, 5, 6, 7, 8, 9], touched = []\<rparr> = Inr s'"
    by (rule in_boundsD [OF d [THEN conjunct2, THEN conjunct2, THEN conjunct1]])
  moreover have "\<exists>s'. BM_Transpose_Rec 3 \<lparr>cells = [1, 2, 3, 4, 5, 6, 7, 8, 9], touched = []\<rparr> = Inr s'"
    by (rule in_boundsD [OF d [THEN conjunct2, THEN conjunct2, THEN conjunct2]])
  ultimately show ?thesis using h by blast
qed

text \<open>
  C10 as stated, for every stride \<open>S \<ge> N\<close> and every buffer of at least \<open>S * N\<close> cells,
  fails at \<open>N = S = 46341\<close> on a buffer of \<open>46341 * 46341\<close> cells: the index expression
  \<^verbatim>\<open>j*N2+i\<close> of the pair \<open>(46339, 46340)\<close> has the value 2147488279, which is below the
  length of the buffer and above \<open>INT_MAX\<close>; the \<^verbatim>\<open>int\<close> computation overflows.
\<close>

theorem indices_overflow:
  "(1::nat) \<le> 46341 \<and> (46341::nat) \<le> 46341 \<and>
   46341 * 46341 \<le> length (cells zeros_46341) \<and>
   46340 * 46341 + 46339 < length (cells zeros_46341) \<and>
   INT_MAX < 46340 * 46341 + 46339 \<and>
   \<not> in_bounds zeros_46341 (Transpose_Row 46341 46341 zeros_46341)"
  by (simp add: Transpose_Row_46341 length_zeros_46341 in_bounds_def INT_MAX_def)

section \<open>Where the block and the recursive variants do not transpose\<close>

text \<open>
  C1. The block variant with the block size 64 of the source, on the \<open>3 \<times> 3\<close> matrix
  1, \<dots>, 9 with stride 3. The inner loop of a diagonal block starts at \<open>k + 1\<close> in
  every row, not at \<open>i + 1\<close>: the cells \<open>(1, 2)\<close> and \<open>(2, 1)\<close> are exchanged in row 1
  and again in row 2, and the result holds 6 and 8 where the transpose holds 8 and 6.
\<close>

theorem Transpose_Block_not_transpose:
  "result (Transpose_Block 3 3 64 \<lparr>cells = [1, 2, 3, 4, 5, 6, 7, 8, 9], touched = []\<rparr>)
     = Some [1, 4, 7, 2, 5, 6, 3, 8, 9]"
  by code_simp

text \<open>
  C2. The benchmarks on \<open>N = 3\<close> with the padded stride \<open>pad 3 = 47\<close> and one and the
  same buffer of \<open>141\<close> cells, cell \<open>p\<close> holding \<open>p\<close>. The cell \<open>(1, 2)\<close>, at index 49,
  holds the value of \<open>(2, 1)\<close> after the row-by-row variant, and its own first value
  after the block and the two-level block variants.
\<close>

theorem variants_disagree:
  "map_option (\<lambda>m. m ! 49)
     (result (BM_Transpose_Row 3 \<lparr>cells = map int [0..<141], touched = []\<rparr>)) = Some 95 \<and>
   map_option (\<lambda>m. m ! 49)
     (result (BM_Transpose_Block 3 \<lparr>cells = map int [0..<141], touched = []\<rparr>)) = Some 49 \<and>
   map_option (\<lambda>m. m ! 49)
     (result (BM_Transpose_Block2 3 \<lparr>cells = map int [0..<141], touched = []\<rparr>)) = Some 49"
  by code_simp

text \<open>
  C3. The recursive variant on the \<open>7 \<times> 7\<close> matrix whose cell \<open>(i, j)\<close> holds
  \<open>7 i + j\<close>. The split is into 3 and 4; the third call treats the off-diagonal
  pair as blocks of size 4 and exchanges the cells \<open>(3, 4)\<close>, \<open>(3, 5)\<close>, \<open>(3, 6)\<close> with
  their mirrors a second time. Row 3 of the result ends with 25, 26, 27 where the
  transpose has 31, 38, 45.
\<close>

theorem transpose_rec_7_not_transpose:
  "result (BM_Transpose_Rec 7 \<lparr>cells = map int [0..<49], touched = []\<rparr>)
     = Some [0, 7, 14, 21, 28, 35, 42,
             1, 8, 15, 22, 29, 36, 43,
             2, 9, 16, 23, 30, 37, 44,
             3, 10, 17, 24, 25, 26, 27,
             4, 11, 18, 31, 32, 39, 46,
             5, 12, 19, 38, 33, 40, 47,
             6, 13, 20, 45, 34, 41, 48]"
  by code_simp

text \<open>
  C7. The recursive and the row-by-row variant on the \<open>16 \<times> 16\<close> matrix whose cell at
  index \<open>p\<close> holds \<open>p\<close>, both with stride 16. The off-diagonal call of size 8 splits
  into three calls of size 4 and never pairs the block at \<open>(8, 4)\<close> with the block at
  \<open>(4, 8)\<close>: after the recursive variant the cells \<open>(8, 4)\<close> and \<open>(4, 8)\<close>, at the indices
  132 and 72, hold their first values, after the row-by-row variant each holds the
  other's.
\<close>

theorem transpose_rec_16_differs_from_row:
  "map_option (\<lambda>m. (m ! 132, m ! 72))
     (result (BM_Transpose_Rec 16 \<lparr>cells = map int [0..<256], touched = []\<rparr>))
     = Some (132, 72) \<and>
   map_option (\<lambda>m. (m ! 132, m ! 72))
     (result (Transpose_Row 16 16 \<lparr>cells = map int [0..<256], touched = []\<rparr>))
     = Some (72, 132)"
  by code_simp

end
